theory Spec2Isabelle
  imports Complex_Main "HOL-Library.List_Lexorder"
begin

text \<open>
  The message selection and the table normalisation of the mail-to-spreadsheet
  pipeline: \<open>parse_date_from_subject\<close>, \<open>find_message_by_date\<close> and
  \<open>find_latest_message\<close> of \<open>gmail_crawler/utils/utils.py\<close>, and
  \<open>json_tables_to_excel\<close> with \<open>_normalize_rows\<close> of
  \<open>gmail_crawler/services/json_to_excel.py\<close>.
\<close>

section \<open>Python strings and the digit class\<close>

text \<open>
  A Python \<open>str\<close> is a sequence of Unicode code points, and \<open>str\<close> comparison is the
  lexicographic order of the code points. A code point is a natural number here, so
  the order on \<open>ustring\<close> is the lexicographic order on lists.
\<close>

type_synonym uchar = nat
type_synonym ustring = "uchar list"

definition ascii :: "string \<Rightarrow> ustring" where
  "ascii s = map of_char s"

text \<open>The three Korean markers of the subject patterns: U+B144, U+C6D4, U+C77C.\<close>

definition nyeon :: uchar where "nyeon = 45380"
definition wol :: uchar where "wol = 50900"
definition il :: uchar where "il = 51068"

text \<open>
  The regular expression class \<open>\d\<close> on a \<open>str\<close> pattern is the Unicode category Nd.
  The characters \<open>0\<close> to \<open>9\<close> are code points 48 to 57; the rest of the table belongs to
  the Python runtime, not to the repository, so every function that consults it takes
  it as the parameter \<open>dv\<close>, which gives the decimal value of a non-ASCII digit and
  \<open>None\<close> for every other character. \<open>ascii_only\<close> is the table with no such digit.
\<close>

type_synonym digit_table = "uchar \<Rightarrow> nat option"

definition ascii_only :: digit_table where
  "ascii_only = (\<lambda>c. None)"

definition ascii_digit :: "uchar \<Rightarrow> bool" where
  "ascii_digit c = (48 \<le> c \<and> c \<le> 57)"

definition is_digit :: "digit_table \<Rightarrow> uchar \<Rightarrow> bool" where
  "is_digit dv c = (ascii_digit c \<or> dv c \<noteq> None)"

definition digit_value :: "digit_table \<Rightarrow> uchar \<Rightarrow> nat" where
  "digit_value dv c =
     (if ascii_digit c then c - 48 else case dv c of Some v \<Rightarrow> v | None \<Rightarrow> 0)"

text \<open>\<open>int(s)\<close> on a string of digits.\<close>

definition int_of_digits :: "digit_table \<Rightarrow> ustring \<Rightarrow> nat" where
  "int_of_digits dv s = foldl (\<lambda>a c. 10 * a + digit_value dv c) 0 s"

text \<open>\<open>str(n)\<close> for a non-negative integer, as the f-string of the current year prints it.\<close>

fun str_of_nat :: "nat \<Rightarrow> ustring" where
  "str_of_nat n = (if n < 10 then [48 + n] else str_of_nat (n div 10) @ [48 + n mod 10])"

declare str_of_nat.simps [simp del]

text \<open>\<open>s.zfill(width)\<close>: zeros go to the left, after a leading sign.\<close>

definition zfill :: "nat \<Rightarrow> ustring \<Rightarrow> ustring" where
  "zfill width s =
     (if width \<le> length s then s
      else case s of
             c # cs \<Rightarrow>
               if c = 43 \<or> c = 45 then c # replicate (width - length s) 48 @ cs
               else replicate (width - length s) 48 @ s
           | [] \<Rightarrow> replicate width 48)"

section \<open>The regular expressions of \<open>parse_date_from_subject\<close>\<close>

definition orelse :: "'a option \<Rightarrow> 'a option \<Rightarrow> 'a option" where
  "orelse a b = (case a of Some x \<Rightarrow> Some x | None \<Rightarrow> b)"

text \<open>
  \<open>digits_then dv n c s\<close> matches \<open>\d{n}\<close> and then the literal \<open>c\<close> at the start of \<open>s\<close>;
  it gives the digits and what follows the literal.
\<close>

definition digits_then :: "digit_table \<Rightarrow> nat \<Rightarrow> uchar \<Rightarrow> ustring \<Rightarrow> (ustring \<times> ustring) option" where
  "digits_then dv n c s =
     (if n < length s \<and> list_all (is_digit dv) (take n s) \<and> s ! n = c
      then Some (take n s, drop (Suc n) s) else None)"

text \<open>
  \<open>(\d{1,2})c\<close> followed by the rest \<open>k\<close> of the pattern: the quantifier is greedy, so
  two digits are tried first, and one digit when the two-digit attempt or what follows
  it fails.
\<close>

definition digits12_then ::
  "digit_table \<Rightarrow> uchar \<Rightarrow> (ustring \<Rightarrow> 'a option) \<Rightarrow> ustring \<Rightarrow> (ustring \<times> 'a) option" where
  "digits12_then dv c k s =
     orelse
       (case digits_then dv 2 c s of
          Some (ds, r) \<Rightarrow> map_option (Pair ds) (k r) | None \<Rightarrow> None)
       (case digits_then dv 1 c s of
          Some (ds, r) \<Rightarrow> map_option (Pair ds) (k r) | None \<Rightarrow> None)"

text \<open>Pattern 3 at the start of \<open>s\<close>: \<open>(\d{1,2})\<close> wol \<open>(\d{1,2})\<close> il; the groups.\<close>

definition match3_at :: "digit_table \<Rightarrow> ustring \<Rightarrow> (ustring \<times> ustring) option" where
  "match3_at dv s =
     map_option (\<lambda>(month, day, u). (month, day))
       (digits12_then dv wol (digits12_then dv il (\<lambda>r. Some ())) s)"

text \<open>Pattern 1 at the start of \<open>s\<close>: \<open>(\d{4})\<close> nyeon, then pattern 3.\<close>

definition match1_at :: "digit_table \<Rightarrow> ustring \<Rightarrow> (ustring \<times> ustring \<times> ustring) option" where
  "match1_at dv s =
     (case digits_then dv 4 nyeon s of
        Some (year, r) \<Rightarrow> map_option (Pair year) (match3_at dv r)
      | None \<Rightarrow> None)"

text \<open>Pattern 2 at the start of \<open>s\<close>: \<open>(\d{8})\<close>.\<close>

definition match2_at :: "digit_table \<Rightarrow> ustring \<Rightarrow> ustring option" where
  "match2_at dv s =
     (if 8 \<le> length s \<and> list_all (is_digit dv) (take 8 s) then Some (take 8 s) else None)"

text \<open>
  \<open>re.search\<close>: the pattern is tried at every position from the left, the end of the
  string included, and the first position where it matches wins.
\<close>

fun re_search :: "(ustring \<Rightarrow> 'a option) \<Rightarrow> ustring \<Rightarrow> 'a option" where
  "re_search m [] = m []"
| "re_search m (c # cs) = orelse (m (c # cs)) (re_search m cs)"

section \<open>\<open>datetime.strptime(date_str, '%Y%m%d')\<close>\<close>

text \<open>
  The library call is made on the eight \<open>\d\<close> characters of pattern 2 only. Its format
  expression is \<open>\d\d\d\d\<close> for the year, \<open>1[0-2]|0[1-9]|[1-9]\<close> for the month and
  \<open>3[0-1]|[1-2]\d|0[1-9]|[1-9]| [1-9]\<close> for the day, and the whole string must be
  consumed: on eight digits that leaves a two-character month and a two-character
  day. The date must then exist in the proleptic Gregorian calendar, in a year from 1
  on. \<open>strptime_ok\<close> is True where the call returns and False where it raises
  \<open>ValueError\<close>.
\<close>

definition is_leap :: "nat \<Rightarrow> bool" where
  "is_leap y = (y mod 4 = 0 \<and> (y mod 100 \<noteq> 0 \<or> y mod 400 = 0))"

definition days_in_month :: "nat \<Rightarrow> nat \<Rightarrow> nat" where
  "days_in_month y m =
     (if m = 2 then (if is_leap y then 29 else 28)
      else if m = 4 \<or> m = 6 \<or> m = 9 \<or> m = 11 then 30 else 31)"

definition month_re :: "uchar \<Rightarrow> uchar \<Rightarrow> bool" where
  "month_re a b = (a = 49 \<and> 48 \<le> b \<and> b \<le> 50 \<or> a = 48 \<and> 49 \<le> b \<and> b \<le> 57)"

definition day_re :: "digit_table \<Rightarrow> uchar \<Rightarrow> uchar \<Rightarrow> bool" where
  "day_re dv a b =
     (a = 51 \<and> 48 \<le> b \<and> b \<le> 49 \<or> (a = 49 \<or> a = 50) \<and> is_digit dv b
      \<or> a = 48 \<and> 49 \<le> b \<and> b \<le> 57)"

definition strptime_ok :: "digit_table \<Rightarrow> ustring \<Rightarrow> bool" where
  "strptime_ok dv date_str =
     (length date_str = 8 \<and> list_all (is_digit dv) date_str
      \<and> month_re (date_str ! 4) (date_str ! 5)
      \<and> day_re dv (date_str ! 6) (date_str ! 7)
      \<and> (let y = int_of_digits dv (take 4 date_str);
              m = int_of_digits dv (take 2 (drop 4 date_str));
              d = int_of_digits dv (drop 6 date_str)
          in 1 \<le> y \<and> d \<le> days_in_month y m))"

section \<open>\<open>parse_date_from_subject\<close>\<close>

text \<open>
  The wall clock enters through \<open>datetime.now().year\<close> in pattern 3: it is the
  parameter \<open>current_year\<close>.
\<close>

definition pattern2_date :: "digit_table \<Rightarrow> ustring \<Rightarrow> ustring option" where
  "pattern2_date dv subject =
     (case re_search (match2_at dv) subject of
        Some date_str \<Rightarrow> if strptime_ok dv date_str then Some date_str else None
      | None \<Rightarrow> None)"

definition parse_date_from_subject :: "digit_table \<Rightarrow> nat \<Rightarrow> ustring \<Rightarrow> ustring option" where
  "parse_date_from_subject dv current_year subject =
     (case re_search (match1_at dv) subject of
        Some (year, month, day) \<Rightarrow> Some (year @ zfill 2 month @ zfill 2 day)
      | None \<Rightarrow>
          (case pattern2_date dv subject of
             Some date_str \<Rightarrow> Some date_str
           | None \<Rightarrow>
               (case re_search (match3_at dv) subject of
                  Some (month, day) \<Rightarrow>
                    Some (str_of_nat current_year @ zfill 2 month @ zfill 2 day)
                | None \<Rightarrow> None)))"

section \<open>What the patterns match, said without the matcher\<close>

text \<open>
  The forms of the three patterns as decompositions of the subject: \<open>pre\<close> is what
  comes before the match. They are the vocabulary of the theorems on the parser.
\<close>

definition month_day_form :: "digit_table \<Rightarrow> ustring \<Rightarrow> ustring \<Rightarrow> bool" where
  "month_day_form dv M D =
     ((length M = 1 \<or> length M = 2) \<and> list_all (is_digit dv) M
      \<and> (length D = 1 \<or> length D = 2) \<and> list_all (is_digit dv) D)"

definition month_day_at :: "digit_table \<Rightarrow> ustring \<Rightarrow> ustring \<Rightarrow> ustring \<Rightarrow> ustring \<Rightarrow> bool" where
  "month_day_at dv subject pre M D =
     (\<exists>post. subject = pre @ M @ wol # D @ il # post \<and> month_day_form dv M D)"

definition year_date_at ::
  "digit_table \<Rightarrow> ustring \<Rightarrow> ustring \<Rightarrow> ustring \<Rightarrow> ustring \<Rightarrow> ustring \<Rightarrow> bool" where
  "year_date_at dv subject pre Y M D =
     (\<exists>post. subject = pre @ Y @ nyeon # M @ wol # D @ il # post
        \<and> length Y = 4 \<and> list_all (is_digit dv) Y \<and> month_day_form dv M D)"

definition digit_run_at :: "digit_table \<Rightarrow> ustring \<Rightarrow> ustring \<Rightarrow> ustring \<Rightarrow> bool" where
  "digit_run_at dv subject pre E =
     (\<exists>post. subject = pre @ E @ post \<and> length E = 8 \<and> list_all (is_digit dv) E)"

definition has_year_date :: "digit_table \<Rightarrow> ustring \<Rightarrow> bool" where
  "has_year_date dv subject = (\<exists>pre Y M D. year_date_at dv subject pre Y M D)"

definition has_month_day :: "digit_table \<Rightarrow> ustring \<Rightarrow> bool" where
  "has_month_day dv subject = (\<exists>pre M D. month_day_at dv subject pre M D)"

definition first_digit_run :: "digit_table \<Rightarrow> ustring \<Rightarrow> ustring \<Rightarrow> bool" where
  "first_digit_run dv subject E =
     (\<exists>pre. digit_run_at dv subject pre E
        \<and> (\<forall>pre' E'. digit_run_at dv subject pre' E' \<longrightarrow> length pre \<le> length pre'))"

section \<open>Python values and exceptions\<close>

text \<open>
  The candidates of the selector and the document of the table converter are
  dynamically typed: dictionaries from \<open>json.loads\<close> or built by the mailbox search.
  \<open>pyval\<close> has the value shapes such data can take. \<open>PNum\<close> is an \<open>int\<close> or a \<open>float\<close>:
  the code only ever asks whether a number is zero. A dictionary is an association
  list with distinct keys, as the keys of a \<open>dict\<close> are.
\<close>

datatype pyval =
    PNone
  | PBool bool
  | PNum rat
  | PStr ustring
  | PList "pyval list"
  | PDict "(ustring \<times> pyval) list"

text \<open>
  The exceptions that the modelled code can raise. \<open>FileProcessingError\<close> carries the
  exception it was made from, as its message does.
\<close>

datatype exn =
    AttributeError
  | TypeError
  | IndexError
  | ValidationError
  | FileProcessingError exn

fun truthy :: "pyval \<Rightarrow> bool" where
  "truthy PNone = False"
| "truthy (PBool b) = b"
| "truthy (PNum n) = (n \<noteq> 0)"
| "truthy (PStr s) = (s \<noteq> [])"
| "truthy (PList xs) = (xs \<noteq> [])"
| "truthy (PDict kvs) = (kvs \<noteq> [])"

definition py_or :: "pyval \<Rightarrow> pyval \<Rightarrow> pyval" where
  "py_or a b = (if truthy a then a else b)"

text \<open>\<open>d.get(key, default)\<close>; only a dictionary has the method.\<close>

definition dict_get :: "pyval \<Rightarrow> ustring \<Rightarrow> pyval \<Rightarrow> exn + pyval" where
  "dict_get d key dflt =
     (case d of
        PDict kvs \<Rightarrow> Inr (case map_of kvs key of Some v \<Rightarrow> v | None \<Rightarrow> dflt)
      | _ \<Rightarrow> Inl AttributeError)"

text \<open>\<open>len(x)\<close> and the items that iterating over \<open>x\<close> yields.\<close>

definition py_len :: "pyval \<Rightarrow> exn + nat" where
  "py_len x =
     (case x of
        PStr s \<Rightarrow> Inr (length s)
      | PList xs \<Rightarrow> Inr (length xs)
      | PDict kvs \<Rightarrow> Inr (length kvs)
      | _ \<Rightarrow> Inl TypeError)"

definition py_iter :: "pyval \<Rightarrow> exn + pyval list" where
  "py_iter x =
     (case x of
        PStr s \<Rightarrow> Inr (map (\<lambda>c. PStr [c]) s)
      | PList xs \<Rightarrow> Inr xs
      | PDict kvs \<Rightarrow> Inr (map (\<lambda>kv. PStr (fst kv)) kvs)
      | _ \<Rightarrow> Inl TypeError)"

text \<open>Sequencing of calls that may raise, and a loop that stops at the first raise.\<close>

definition bnd :: "exn + 'a \<Rightarrow> ('a \<Rightarrow> exn + 'b) \<Rightarrow> exn + 'b" where
  "bnd r f = (case r of Inl e \<Rightarrow> Inl e | Inr x \<Rightarrow> f x)"

fun traverse :: "('a \<Rightarrow> exn + 'b) \<Rightarrow> 'a list \<Rightarrow> exn + 'b list" where
  "traverse f [] = Inr []"
| "traverse f (x # xs) = bnd (f x) (\<lambda>y. bnd (traverse f xs) (\<lambda>ys. Inr (y # ys)))"

section \<open>The message selector\<close>

text \<open>
  \<open>parse_date_from_subject(msg_data.get('subject', ''))\<close>: \<open>re.search\<close> raises
  \<open>TypeError\<close> on a subject that is not a string.
\<close>

definition subject_date :: "digit_table \<Rightarrow> nat \<Rightarrow> pyval \<Rightarrow> exn + ustring option" where
  "subject_date dv current_year msg_data =
     bnd (dict_get msg_data (ascii ''subject'') (PStr []))
       (\<lambda>subject. case subject of
          PStr s \<Rightarrow> Inr (parse_date_from_subject dv current_year s)
        | _ \<Rightarrow> Inl TypeError)"

fun find_message_by_date ::
  "digit_table \<Rightarrow> nat \<Rightarrow> pyval list \<Rightarrow> ustring \<Rightarrow> exn + pyval option" where
  "find_message_by_date dv current_year [] target_date = Inr None"
| "find_message_by_date dv current_year (msg_data # rest) target_date =
     bnd (subject_date dv current_year msg_data)
       (\<lambda>parsed_date.
          if parsed_date = Some target_date then Inr (Some msg_data)
          else find_message_by_date dv current_year rest target_date)"

text \<open>The sort key of \<open>find_latest_message\<close>: the parsed date \<open>or '00000000'\<close>.\<close>

definition latest_key :: "digit_table \<Rightarrow> nat \<Rightarrow> pyval \<Rightarrow> exn + ustring" where
  "latest_key dv current_year x =
     bnd (subject_date dv current_year x)
       (\<lambda>parsed. Inr (case parsed of
                        Some d \<Rightarrow> if d \<noteq> [] then d else ascii ''00000000''
                      | None \<Rightarrow> ascii ''00000000''))"

text \<open>
  \<open>sorted(xs, key=..., reverse=True)\<close> computes the key of every element, in order, and
  then sorts on the keys alone: the list is reversed, sorted by a stable ascending
  sort, and reversed again. \<open>sort_key\<close> is the stable insertion sort of the library.
\<close>

definition py_sorted_reverse :: "('a \<Rightarrow> exn + ustring) \<Rightarrow> 'a list \<Rightarrow> exn + 'a list" where
  "py_sorted_reverse key xs =
     bnd (traverse key xs)
       (\<lambda>keys. Inr (map snd (rev (sort_key fst (rev (zip keys xs))))))"

definition find_latest_message :: "digit_table \<Rightarrow> nat \<Rightarrow> pyval list \<Rightarrow> exn + pyval option" where
  "find_latest_message dv current_year messages_data =
     (if messages_data = [] then Inr None
      else bnd (py_sorted_reverse (latest_key dv current_year) messages_data)
             (\<lambda>sorted_messages. case sorted_messages of
                m # _ \<Rightarrow> Inr (Some m)
              | [] \<Rightarrow> Inl IndexError))"

text \<open>
  The candidates the mailbox search builds: dictionaries whose \<open>subject\<close>, when they
  have one, is a string.
\<close>

fun wf_message :: "pyval \<Rightarrow> bool" where
  "wf_message (PDict kvs) =
     (case map_of kvs (ascii ''subject'') of
        None \<Rightarrow> True | Some (PStr s) \<Rightarrow> True | Some _ \<Rightarrow> False)"
| "wf_message _ = False"

text \<open>The subject that the selector reads from a candidate.\<close>

fun subject_of :: "pyval \<Rightarrow> ustring" where
  "subject_of (PDict kvs) =
     (case map_of kvs (ascii ''subject'') of Some (PStr s) \<Rightarrow> s | _ \<Rightarrow> [])"
| "subject_of _ = []"

text \<open>
  A candidate as \<open>list_messages_from_sender\<close> builds it, with the identifier and the
  subject given and the other two headers empty.
\<close>

definition msg :: "string \<Rightarrow> ustring \<Rightarrow> pyval" where
  "msg i s =
     PDict [(ascii ''id'', PStr (ascii i)), (ascii ''subject'', PStr s),
            (ascii ''date'', PStr []), (ascii ''from'', PStr [])]"

text \<open>
  The date that \<open>find_latest_message\<close> sorts a candidate by, in the words of the
  specification: the parsed date of its subject, \<open>00000000\<close> when there is none.
\<close>

definition date_or_zeros :: "digit_table \<Rightarrow> nat \<Rightarrow> pyval \<Rightarrow> ustring" where
  "date_or_zeros dv current_year m =
     (case parse_date_from_subject dv current_year (subject_of m) of
        Some d \<Rightarrow> d | None \<Rightarrow> ascii ''00000000'')"

text \<open>
  The subjects on which \<open>parse_date_from_subject\<close> reads the clock: those that reach
  pattern 3 and match it.
\<close>

definition year_from_clock :: "digit_table \<Rightarrow> ustring \<Rightarrow> bool" where
  "year_from_clock dv subject =
     (re_search (match1_at dv) subject = None \<and> pattern2_date dv subject = None
      \<and> re_search (match3_at dv) subject \<noteq> None)"

section \<open>The table converter\<close>

text \<open>
  The body of the loop of \<open>_normalize_rows\<close>, after \<open>list(row)\<close>: pad with \<open>None\<close> or cut
  to \<open>num_cols\<close> cells.
\<close>

definition normalize_row :: "nat \<Rightarrow> pyval list \<Rightarrow> pyval list" where
  "normalize_row num_cols normalized_row =
     (if length normalized_row < num_cols
      then normalized_row @ replicate (num_cols - length normalized_row) PNone
      else if length normalized_row > num_cols then take num_cols normalized_row
      else normalized_row)"

definition normalize_rows :: "pyval \<Rightarrow> nat \<Rightarrow> exn + pyval list list" where
  "normalize_rows rows num_cols =
     bnd (py_iter rows)
       (traverse (\<lambda>row. bnd (py_iter row) (\<lambda>items. Inr (normalize_row num_cols items))))"

text \<open>\<open>max(..., default=d)\<close> over lengths.\<close>

definition max_default :: "nat list \<Rightarrow> nat \<Rightarrow> nat" where
  "max_default xs d = (case xs of [] \<Rightarrow> d | x # rest \<Rightarrow> foldl max x rest)"

text \<open>\<open>[f"col_{i+1}" for i in range(num_cols)]\<close>.\<close>

definition col_names :: "nat \<Rightarrow> pyval list" where
  "col_names num_cols = map (\<lambda>i. PStr (ascii ''col_'' @ str_of_nat (i + 1))) [0..<num_cols]"

text \<open>\<open>x[:n]\<close>; a dictionary cannot be sliced, nor can a value without items.\<close>

definition py_slice_to :: "pyval \<Rightarrow> nat \<Rightarrow> exn + pyval" where
  "py_slice_to x n =
     (case x of
        PStr s \<Rightarrow> Inr (PStr (take n s))
      | PList xs \<Rightarrow> Inr (PList (take n xs))
      | _ \<Rightarrow> Inl TypeError)"

text \<open>
  What one table hands to the spreadsheet library: the sheet name, the \<open>columns\<close>
  argument and the rows of the \<open>DataFrame\<close>. \<open>pandas\<close> and \<open>openpyxl\<close> are outside the
  repository: the model records the call and goes on as if it returned.
\<close>

record sheet =
  sheet_name :: ustring
  columns :: pyval
  frame :: "pyval list list"

definition table_sheet :: "nat \<Rightarrow> pyval \<Rightarrow> exn + sheet" where
  "table_sheet idx table =
     bnd (dict_get table (ascii ''headers'') PNone) (\<lambda>h.
     bnd (dict_get table (ascii ''rows'') PNone) (\<lambda>r.
       let headers = py_or h (PList []); rows = py_or r (PList []) in
       bnd (if truthy headers then py_len headers
            else bnd (py_iter rows) (\<lambda>rs. bnd (traverse py_len rs) (\<lambda>lens. Inr (max_default lens 0))))
         (\<lambda>num_cols.
       bnd (normalize_rows rows num_cols) (\<lambda>rows_norm.
       bnd (if truthy headers
            then bnd (py_len headers)
                   (\<lambda>n. if n \<noteq> num_cols then py_slice_to headers num_cols else Inr headers)
            else Inr headers) (\<lambda>headers1.
       let headers2 = (if \<not> truthy headers1 then PList (col_names num_cols) else headers1) in
       Inr \<lparr>sheet_name = ascii ''Table'' @ str_of_nat idx, columns = headers2,
            frame = rows_norm\<rparr>)))))"

text \<open>
  The loop over \<open>enumerate(tables, start=1)\<close>. The state is the list of sheets written
  so far; a raise leaves it as it is.
\<close>

fun write_tables :: "nat \<Rightarrow> pyval list \<Rightarrow> sheet list \<Rightarrow> sheet list \<times> exn option" where
  "write_tables idx [] written = (written, None)"
| "write_tables idx (table # rest) written =
     (case table_sheet idx table of
        Inl e \<Rightarrow> (written, Some e)
      | Inr s \<Rightarrow> write_tables (idx + 1) rest (written @ [s]))"

text \<open>
  The body of the \<open>try\<close> of \<open>json_tables_to_excel\<close>, from the decoded document on
  (reading the file and decoding it are not modelled), and the function with its
  \<open>except Exception\<close> handler. The result is the sheets written and either the
  exception raised to the caller or the normal return.
\<close>

definition convert_body :: "pyval \<Rightarrow> sheet list \<times> (exn + unit)" where
  "convert_body data =
     (case dict_get data (ascii ''tables'') PNone of
        Inl e \<Rightarrow> ([], Inl e)
      | Inr t \<Rightarrow>
          (case py_or t (PList []) of
             PList tables \<Rightarrow>
               if tables = [] then ([], Inl ValidationError)
               else (case write_tables 1 tables [] of
                       (written, Some e) \<Rightarrow> (written, Inl e)
                     | (written, None) \<Rightarrow> (written, Inr ()))
           | _ \<Rightarrow> ([], Inl ValidationError)))"

definition json_tables_to_excel :: "pyval \<Rightarrow> sheet list \<times> (exn + unit)" where
  "json_tables_to_excel data =
     (case convert_body data of
        (written, Inl e) \<Rightarrow> (written, Inl (FileProcessingError e))
      | (written, Inr u) \<Rightarrow> (written, Inr u))"

section \<open>The specification's column count, and a property of the digit table\<close>


text \<open>
  Every digit of the Unicode table lies above the character \<open>0\<close>: the property of the
  table under which an absent date, read as \<open>00000000\<close>, sorts last.
\<close>

definition digits_from_zero :: "digit_table \<Rightarrow> bool" where
  "digits_from_zero dv = (\<forall>c. dv c \<noteq> None \<longrightarrow> 48 \<le> c)"

section \<open>The matcher finds exactly these forms\<close>

lemma orelse_Some_iff: "orelse a b = Some x \<longleftrightarrow> a = Some x \<or> a = None \<and> b = Some x"
  by (cases a) (simp_all add: orelse_def)

lemma orelse_None_iff: "orelse a b = None \<longleftrightarrow> a = None \<and> b = None"
  by (cases a) (simp_all add: orelse_def)

lemma digits_then_Some_iff:
  "digits_then dv n c s = Some (ds, r) \<longleftrightarrow>
     s = ds @ c # r \<and> length ds = n \<and> list_all (is_digit dv) ds"
proof
  assume "digits_then dv n c s = Some (ds, r)"
  then have n: "n < length s" and d: "list_all (is_digit dv) (take n s)" and c: "s ! n = c"
    and ds: "ds = take n s" and r: "r = drop (Suc n) s"
    by (auto simp: digits_then_def split: if_splits)
  from n c have "s = take n s @ c # drop (Suc n) s"
    using id_take_nth_drop [of n s] by blast
  then have "s = ds @ c # r"
    unfolding ds r .
  moreover from n d ds have "length ds = n \<and> list_all (is_digit dv) ds"
    by simp
  ultimately show "s = ds @ c # r \<and> length ds = n \<and> list_all (is_digit dv) ds"
    by blast
next
  assume "s = ds @ c # r \<and> length ds = n \<and> list_all (is_digit dv) ds"
  then show "digits_then dv n c s = Some (ds, r)"
    by (auto simp: digits_then_def nth_append)
qed

lemma digits12_then_sound:
  assumes "digits12_then dv c k s = Some (ds, x)"
  shows "\<exists>r. s = ds @ c # r \<and> (length ds = 1 \<or> length ds = 2)
             \<and> list_all (is_digit dv) ds \<and> k r = Some x"
proof -
  from assms obtain n r where "digits_then dv n c s = Some (ds, r)" "n = 1 \<or> n = 2" "k r = Some x"
    by (auto simp: digits12_then_def orelse_Some_iff split: option.splits)
  then have "s = ds @ c # r \<and> (length ds = 1 \<or> length ds = 2)
             \<and> list_all (is_digit dv) ds \<and> k r = Some x"
    by (simp add: digits_then_Some_iff)
  then show ?thesis ..
qed

lemma digits12_then_complete:
  assumes "length ds = 1 \<or> length ds = 2" and "list_all (is_digit dv) ds" and "k r \<noteq> None"
  shows "digits12_then dv c k (ds @ c # r) \<noteq> None"
proof -
  from assms(1) show ?thesis
  proof
    assume "length ds = 2"
    with assms(2) have "digits_then dv 2 c (ds @ c # r) = Some (ds, r)"
      by (simp add: digits_then_Some_iff)
    with assms(3) show ?thesis
      by (auto simp: digits12_then_def orelse_None_iff)
  next
    assume "length ds = 1"
    with assms(2) have "digits_then dv 1 c (ds @ c # r) = Some (ds, r)"
      by (simp add: digits_then_Some_iff)
    with assms(3) show ?thesis
      by (auto simp: digits12_then_def orelse_None_iff)
  qed
qed

lemma match3_at_sound:
  assumes "match3_at dv s = Some (M, D)"
  shows "\<exists>post. s = M @ wol # D @ il # post \<and> month_day_form dv M D"
proof -
  from assms obtain u where
    h: "digits12_then dv wol (digits12_then dv il (\<lambda>r. Some ())) s = Some (M, D, u)"
    by (auto simp: match3_at_def)
  from digits12_then_sound [OF h] obtain r where
    s: "s = M @ wol # r" and M: "length M = 1 \<or> length M = 2" "list_all (is_digit dv) M"
    and k: "digits12_then dv il (\<lambda>r. Some ()) r = Some (D, u)"
    by auto
  from digits12_then_sound [OF k] obtain post where
    "r = D @ il # post" "length D = 1 \<or> length D = 2" "list_all (is_digit dv) D"
    by auto
  with s M have "s = M @ wol # D @ il # post \<and> month_day_form dv M D"
    by (simp add: month_day_form_def)
  then show ?thesis ..
qed

lemma match3_at_complete:
  assumes "month_day_form dv M D"
  shows "match3_at dv (M @ wol # D @ il # post) \<noteq> None"
proof -
  from assms have "digits12_then dv il (\<lambda>r. Some ()) (D @ il # post) \<noteq> None"
    by (intro digits12_then_complete) (auto simp: month_day_form_def)
  with assms have "digits12_then dv wol (digits12_then dv il (\<lambda>r. Some ())) (M @ wol # D @ il # post) \<noteq> None"
    by (intro digits12_then_complete) (auto simp: month_day_form_def)
  then show ?thesis
    by (simp add: match3_at_def)
qed

lemma match1_at_sound:
  assumes "match1_at dv s = Some (Y, M, D)"
  shows "\<exists>post. s = Y @ nyeon # M @ wol # D @ il # post
           \<and> length Y = 4 \<and> list_all (is_digit dv) Y \<and> month_day_form dv M D"
proof -
  from assms obtain r where "digits_then dv 4 nyeon s = Some (Y, r)" "match3_at dv r = Some (M, D)"
    by (auto simp: match1_at_def split: option.splits)
  then show ?thesis
    using match3_at_sound [of dv r M D] by (auto simp: digits_then_Some_iff)
qed

lemma match1_at_complete:
  assumes "length Y = 4" "list_all (is_digit dv) Y" "month_day_form dv M D"
  shows "match1_at dv (Y @ nyeon # M @ wol # D @ il # post) \<noteq> None"
proof -
  from assms have "digits_then dv 4 nyeon (Y @ nyeon # M @ wol # D @ il # post)
      = Some (Y, M @ wol # D @ il # post)"
    by (simp add: digits_then_Some_iff)
  with match3_at_complete [OF assms(3), of post] show ?thesis
    by (simp add: match1_at_def)
qed

lemma match2_at_Some_iff:
  "match2_at dv s = Some E \<longleftrightarrow>
     (\<exists>post. s = E @ post \<and> length E = 8 \<and> list_all (is_digit dv) E)"
proof
  assume "match2_at dv s = Some E"
  then have "8 \<le> length s" "list_all (is_digit dv) (take 8 s)" "E = take 8 s"
    by (auto simp: match2_at_def split: if_splits)
  then have "s = E @ drop 8 s \<and> length E = 8 \<and> list_all (is_digit dv) E"
    by simp
  then show "\<exists>post. s = E @ post \<and> length E = 8 \<and> list_all (is_digit dv) E" ..
next
  assume "\<exists>post. s = E @ post \<and> length E = 8 \<and> list_all (is_digit dv) E"
  then show "match2_at dv s = Some E"
    by (auto simp: match2_at_def)
qed

lemma re_search_None_iff:
  "re_search m s = None \<longleftrightarrow> (\<forall>pre suf. s = pre @ suf \<longrightarrow> m suf = None)"
proof (induction s)
  case Nil
  then show ?case by simp
next
  case (Cons c cs)
  show ?case
  proof
    assume "re_search m (c # cs) = None"
    then have h: "m (c # cs) = None" and t: "\<forall>pre suf. cs = pre @ suf \<longrightarrow> m suf = None"
      using Cons.IH by (simp_all add: orelse_None_iff)
    show "\<forall>pre suf. c # cs = pre @ suf \<longrightarrow> m suf = None"
    proof (intro allI impI)
      fix pre suf assume "c # cs = pre @ suf"
      then show "m suf = None"
        using h t by (cases pre) auto
    qed
  next
    assume a: "\<forall>pre suf. c # cs = pre @ suf \<longrightarrow> m suf = None"
    then have "m (c # cs) = None"
      by (metis append_Nil)
    moreover have "\<forall>pre suf. cs = pre @ suf \<longrightarrow> m suf = None"
      using a by (metis append_Cons)
    ultimately show "re_search m (c # cs) = None"
      using Cons.IH by (simp add: orelse_None_iff)
  qed
qed

lemma re_search_Some:
  "re_search m s = Some x \<Longrightarrow>
     \<exists>pre suf. s = pre @ suf \<and> m suf = Some x
        \<and> (\<forall>pre' suf'. s = pre' @ suf' \<and> length pre' < length pre \<longrightarrow> m suf' = None)"
proof (induction s)
  case Nil
  then show ?case by simp
next
  case (Cons c cs)
  show ?case
  proof (cases "m (c # cs)")
    case (Some y)
    with Cons.prems have "m (c # cs) = Some x"
      by (simp add: orelse_def)
    then have "c # cs = [] @ c # cs \<and> m (c # cs) = Some x
        \<and> (\<forall>pre' suf'. c # cs = pre' @ suf' \<and> length pre' < length ([]::ustring) \<longrightarrow> m suf' = None)"
      by simp
    then show ?thesis by blast
  next
    case None
    with Cons.prems have "re_search m cs = Some x"
      by (simp add: orelse_def)
    then obtain pre suf where p: "cs = pre @ suf" "m suf = Some x"
      and least: "\<forall>pre' suf'. cs = pre' @ suf' \<and> length pre' < length pre \<longrightarrow> m suf' = None"
      using Cons.IH by blast
    have "\<forall>pre' suf'. c # cs = pre' @ suf' \<and> length pre' < length (c # pre) \<longrightarrow> m suf' = None"
    proof (intro allI impI)
      fix pre' suf' assume a: "c # cs = pre' @ suf' \<and> length pre' < length (c # pre)"
      show "m suf' = None"
      proof (cases pre')
        case Nil
        with a None show ?thesis by simp
      next
        case (Cons d ds)
        with a have "cs = ds @ suf'" "length ds < length pre" by simp_all
        with least show ?thesis by blast
      qed
    qed
    with p have "c # cs = (c # pre) @ suf \<and> m suf = Some x
        \<and> (\<forall>pre' suf'. c # cs = pre' @ suf' \<and> length pre' < length (c # pre) \<longrightarrow> m suf' = None)"
      by simp
    then show ?thesis by blast
  qed
qed

lemma re_search_least:
  assumes s: "s = pre @ suf" and m: "m suf = Some x"
    and least: "\<forall>pre' suf'. s = pre' @ suf' \<and> length pre' < length pre \<longrightarrow> m suf' = None"
  shows "re_search m s = Some x"
proof -
  from s m have "re_search m s \<noteq> None"
    unfolding re_search_None_iff by auto
  then obtain y where y: "re_search m s = Some y"
    by auto
  from re_search_Some [OF y] obtain p q where pq: "s = p @ q" "m q = Some y"
    and pl: "\<forall>pre' suf'. s = pre' @ suf' \<and> length pre' < length p \<longrightarrow> m suf' = None"
    by auto
  have "\<not> length p < length pre"
    using least pq by auto
  moreover have "\<not> length pre < length p"
    using pl s m by auto
  ultimately have "length p = length pre"
    by simp
  with s pq(1) have "q = suf"
    by (metis append_eq_append_conv)
  with pq(2) m y show ?thesis
    by simp
qed

lemma re_search_Some_before:
  assumes "s = pre @ suf" and "m suf \<noteq> None"
  shows "\<exists>p q x. s = p @ q \<and> re_search m s = Some x \<and> m q = Some x \<and> length p \<le> length pre"
proof -
  from assms have "re_search m s \<noteq> None"
    unfolding re_search_None_iff by auto
  then obtain y where y: "re_search m s = Some y"
    by auto
  from re_search_Some [OF y] obtain p q where pq: "s = p @ q" "m q = Some y"
    and pl: "\<forall>pre' suf'. s = pre' @ suf' \<and> length pre' < length p \<longrightarrow> m suf' = None"
    by auto
  have "\<not> length pre < length p"
    using pl assms by auto
  with pq y have "s = p @ q \<and> re_search m s = Some y \<and> m q = Some y \<and> length p \<le> length pre"
    by simp
  then show ?thesis by blast
qed

lemma search1_year_date:
  assumes "year_date_at dv subject pre Y M D"
  shows "\<exists>pre' Y' M' D'. re_search (match1_at dv) subject = Some (Y', M', D')
           \<and> year_date_at dv subject pre' Y' M' D' \<and> length pre' \<le> length pre"
proof -
  from assms obtain post where s: "subject = pre @ (Y @ nyeon # M @ wol # D @ il # post)"
    and f: "length Y = 4" "list_all (is_digit dv) Y" "month_day_form dv M D"
    by (auto simp: year_date_at_def)
  from re_search_Some_before [of subject pre _ "match1_at dv", OF s match1_at_complete [OF f, of post]]
  obtain p q x where pq: "subject = p @ q" "re_search (match1_at dv) subject = Some x"
    "match1_at dv q = Some x" "length p \<le> length pre"
    by blast
  obtain Y' M' D' where x: "x = (Y', M', D')"
    by (cases x) auto
  from match1_at_sound [of dv q Y' M' D'] pq(3) x obtain post' where
    "q = Y' @ nyeon # M' @ wol # D' @ il # post'" "length Y' = 4" "list_all (is_digit dv) Y'"
    "month_day_form dv M' D'"
    by auto
  with pq(1) have "year_date_at dv subject p Y' M' D'"
    by (auto simp: year_date_at_def)
  with pq x show ?thesis
    by blast
qed

lemma search1_None_iff:
  "re_search (match1_at dv) subject = None \<longleftrightarrow> \<not> (\<exists>pre Y M D. year_date_at dv subject pre Y M D)"
proof
  assume n: "re_search (match1_at dv) subject = None"
  show "\<not> (\<exists>pre Y M D. year_date_at dv subject pre Y M D)"
  proof
    assume "\<exists>pre Y M D. year_date_at dv subject pre Y M D"
    then obtain pre Y M D where "year_date_at dv subject pre Y M D"
      by blast
    from search1_year_date [OF this] n show False
      by auto
  qed
next
  assume a: "\<not> (\<exists>pre Y M D. year_date_at dv subject pre Y M D)"
  show "re_search (match1_at dv) subject = None"
  proof (rule ccontr)
    assume "re_search (match1_at dv) subject \<noteq> None"
    then obtain x where x: "re_search (match1_at dv) subject = Some x"
      by auto
    obtain Y M D where xe: "x = (Y, M, D)"
      by (cases x) auto
    from re_search_Some [OF x] obtain p q where pq: "subject = p @ q" "match1_at dv q = Some x"
      by auto
    from match1_at_sound [of dv q Y M D] pq(2) xe obtain post where
      "q = Y @ nyeon # M @ wol # D @ il # post" "length Y = 4" "list_all (is_digit dv) Y"
      "month_day_form dv M D"
      by auto
    with pq(1) have "year_date_at dv subject p Y M D"
      by (auto simp: year_date_at_def)
    with a show False by blast
  qed
qed

lemma search3_month_day:
  assumes "month_day_at dv subject pre M D"
  shows "\<exists>pre' M' D'. re_search (match3_at dv) subject = Some (M', D')
           \<and> month_day_at dv subject pre' M' D' \<and> length pre' \<le> length pre"
proof -
  from assms obtain post where s: "subject = pre @ (M @ wol # D @ il # post)"
    and f: "month_day_form dv M D"
    by (auto simp: month_day_at_def)
  from re_search_Some_before [of subject pre _ "match3_at dv", OF s match3_at_complete [OF f, of post]]
  obtain p q x where pq: "subject = p @ q" "re_search (match3_at dv) subject = Some x"
    "match3_at dv q = Some x" "length p \<le> length pre"
    by blast
  obtain M' D' where x: "x = (M', D')"
    by (cases x) auto
  from match3_at_sound [of dv q M' D'] pq(3) x obtain post' where
    "q = M' @ wol # D' @ il # post'" "month_day_form dv M' D'"
    by auto
  with pq(1) have "month_day_at dv subject p M' D'"
    by (auto simp: month_day_at_def)
  with pq x show ?thesis
    by blast
qed

lemma search3_None_iff:
  "re_search (match3_at dv) subject = None \<longleftrightarrow> \<not> (\<exists>pre M D. month_day_at dv subject pre M D)"
proof
  assume n: "re_search (match3_at dv) subject = None"
  show "\<not> (\<exists>pre M D. month_day_at dv subject pre M D)"
  proof
    assume "\<exists>pre M D. month_day_at dv subject pre M D"
    then obtain pre M D where "month_day_at dv subject pre M D"
      by blast
    from search3_month_day [OF this] n show False
      by auto
  qed
next
  assume a: "\<not> (\<exists>pre M D. month_day_at dv subject pre M D)"
  show "re_search (match3_at dv) subject = None"
  proof (rule ccontr)
    assume "re_search (match3_at dv) subject \<noteq> None"
    then obtain x where x: "re_search (match3_at dv) subject = Some x"
      by auto
    obtain M D where xe: "x = (M, D)"
      by (cases x) auto
    from re_search_Some [OF x] obtain p q where pq: "subject = p @ q" "match3_at dv q = Some x"
      by auto
    from match3_at_sound [of dv q M D] pq(2) xe obtain post where
      "q = M @ wol # D @ il # post" "month_day_form dv M D"
      by auto
    with pq(1) have "month_day_at dv subject p M D"
      by (auto simp: month_day_at_def)
    with a show False by blast
  qed
qed

lemma search2_first_run:
  assumes run: "digit_run_at dv subject pre E"
    and first: "\<forall>pre' E'. digit_run_at dv subject pre' E' \<longrightarrow> length pre \<le> length pre'"
  shows "re_search (match2_at dv) subject = Some E"
proof -
  from run obtain post where s: "subject = pre @ (E @ post)" and E: "length E = 8" "list_all (is_digit dv) E"
    by (auto simp: digit_run_at_def)
  from E have m: "match2_at dv (E @ post) = Some E"
    by (auto simp: match2_at_Some_iff)
  have "\<forall>pre' suf'. subject = pre' @ suf' \<and> length pre' < length pre \<longrightarrow> match2_at dv suf' = None"
  proof (intro allI impI)
    fix pre' suf' assume a: "subject = pre' @ suf' \<and> length pre' < length pre"
    show "match2_at dv suf' = None"
    proof (rule ccontr)
      assume "match2_at dv suf' \<noteq> None"
      then obtain E' where "match2_at dv suf' = Some E'"
        by auto
      then obtain post' where "suf' = E' @ post'" "length E' = 8" "list_all (is_digit dv) E'"
        by (auto simp: match2_at_Some_iff)
      with a have "digit_run_at dv subject pre' E'"
        by (auto simp: digit_run_at_def)
      with first a show False
        by fastforce
    qed
  qed
  from re_search_least [OF s m this] show ?thesis .
qed

section \<open>The parser by pattern\<close>

lemma has_year_date_iff: "has_year_date dv subject \<longleftrightarrow> re_search (match1_at dv) subject \<noteq> None"
  by (simp add: has_year_date_def search1_None_iff)

lemma no_year_date_iff: "\<not> has_year_date dv subject \<longleftrightarrow> re_search (match1_at dv) subject = None"
  by (simp add: has_year_date_def search1_None_iff)

lemma no_month_day_iff: "\<not> has_month_day dv subject \<longleftrightarrow> re_search (match3_at dv) subject = None"
  by (simp add: has_month_day_def search3_None_iff)

lemma has_month_day_iff: "has_month_day dv subject \<longleftrightarrow> re_search (match3_at dv) subject \<noteq> None"
  by (simp add: has_month_day_def search3_None_iff)

lemma first_digit_run_iff:
  "first_digit_run dv subject E \<longleftrightarrow> re_search (match2_at dv) subject = Some E"
proof
  assume "first_digit_run dv subject E"
  then obtain pre where "digit_run_at dv subject pre E"
    "\<forall>pre' E'. digit_run_at dv subject pre' E' \<longrightarrow> length pre \<le> length pre'"
    by (auto simp: first_digit_run_def)
  then show "re_search (match2_at dv) subject = Some E"
    by (rule search2_first_run)
next
  assume a: "re_search (match2_at dv) subject = Some E"
  from re_search_Some [OF a] obtain pre suf where s: "subject = pre @ suf" and m: "match2_at dv suf = Some E"
    and least: "\<forall>pre' suf'. subject = pre' @ suf' \<and> length pre' < length pre \<longrightarrow> match2_at dv suf' = None"
    by auto
  from m obtain post where suf: "suf = E @ post" and E: "length E = 8" "list_all (is_digit dv) E"
    by (auto simp: match2_at_Some_iff)
  from s suf E have run: "digit_run_at dv subject pre E"
    by (auto simp: digit_run_at_def)
  have "\<forall>pre' E'. digit_run_at dv subject pre' E' \<longrightarrow> length pre \<le> length pre'"
  proof (intro allI impI)
    fix pre' E' assume "digit_run_at dv subject pre' E'"
    then obtain post' where s': "subject = pre' @ (E' @ post')" and "length E' = 8" "list_all (is_digit dv) E'"
      by (auto simp: digit_run_at_def)
    then have "match2_at dv (E' @ post') = Some E'"
      by (auto simp: match2_at_Some_iff)
    with least s' show "length pre \<le> length pre'"
      by (metis not_le_imp_less option.distinct(1))
  qed
  with run show "first_digit_run dv subject E"
    by (auto simp: first_digit_run_def)
qed

lemma parse_year_date:
  assumes "year_date_at dv subject pre Y M D"
  shows "\<exists>pre' Y' M' D'. year_date_at dv subject pre' Y' M' D' \<and> length pre' \<le> length pre
           \<and> parse_date_from_subject dv current_year subject = Some (Y' @ zfill 2 M' @ zfill 2 D')"
proof -
  from search1_year_date [OF assms] obtain pre' Y' M' D' where
    h: "re_search (match1_at dv) subject = Some (Y', M', D')"
    "year_date_at dv subject pre' Y' M' D'" "length pre' \<le> length pre"
    by blast
  from h(1) have "parse_date_from_subject dv current_year subject = Some (Y' @ zfill 2 M' @ zfill 2 D')"
    by (simp add: parse_date_from_subject_def)
  with h(2,3) show ?thesis
    by blast
qed

lemma parse_after_pattern2:
  assumes "\<not> has_year_date dv subject"
    and "pattern2_date dv subject = None"
  shows "parse_date_from_subject dv current_year subject =
           (case re_search (match3_at dv) subject of
              Some (month, day) \<Rightarrow> Some (str_of_nat current_year @ zfill 2 month @ zfill 2 day)
            | None \<Rightarrow> None)"
proof -
  from assms(1) have "re_search (match1_at dv) subject = None"
    by (simp only: no_year_date_iff)
  with assms(2) show ?thesis
    by (simp add: parse_date_from_subject_def)
qed




lemmas parse_defs = parse_date_from_subject_def pattern2_date_def match1_at_def match2_at_def match3_at_def
  digits12_then_def digits_then_def orelse_def is_digit_def ascii_digit_def ascii_only_def strptime_ok_def
  month_re_def day_re_def int_of_digits_def digit_value_def days_in_month_def is_leap_def zfill_def
  nyeon_def wol_def il_def ascii_def



text \<open>
  C5. When the subject contains a year-bearing date and also a calendar-valid run
  of eight digits, wherever that run stands, the result is built from the leftmost
  year-bearing date: the order of the patterns decides, not the position.
\<close>

theorem year_pattern_beats_digit_run:
  assumes "year_date_at dv subject pre Y M D"
    and "digit_run_at dv subject pre2 E" and "strptime_ok dv E"
  shows "\<exists>pre' Y' M' D'. year_date_at dv subject pre' Y' M' D' \<and> length pre' \<le> length pre
           \<and> parse_date_from_subject dv current_year subject = Some (Y' @ zfill 2 M' @ zfill 2 D')"
  using assms(1) by (rule parse_year_date)

theorem year_pattern_beats_digit_run_witness:
  "year_date_at ascii_only (ascii ''20240101 2025'' @ [nyeon] @ ascii ''9'' @ [wol] @ ascii ''4'' @ [il])
      (ascii ''20240101 '') (ascii ''2025'') (ascii ''9'') (ascii ''4'')
   \<and> digit_run_at ascii_only (ascii ''20240101 2025'' @ [nyeon] @ ascii ''9'' @ [wol] @ ascii ''4'' @ [il])
        [] (ascii ''20240101'')
   \<and> strptime_ok ascii_only (ascii ''20240101'')
   \<and> parse_date_from_subject ascii_only 2026
        (ascii ''20240101 2025'' @ [nyeon] @ ascii ''9'' @ [wol] @ ascii ''4'' @ [il]) = Some (ascii ''20250904'')"
proof -
  have h1: "year_date_at ascii_only (ascii ''20240101 2025'' @ [nyeon] @ ascii ''9'' @ [wol] @ ascii ''4'' @ [il])
      (ascii ''20240101 '') (ascii ''2025'') (ascii ''9'') (ascii ''4'')"
    by (simp add: year_date_at_def month_day_form_def parse_defs)
  have h2: "digit_run_at ascii_only (ascii ''20240101 2025'' @ [nyeon] @ ascii ''9'' @ [wol] @ ascii ''4'' @ [il])
        [] (ascii ''20240101'')"
    by (simp add: digit_run_at_def parse_defs)
  have h3: "strptime_ok ascii_only (ascii ''20240101'')"
    by (simp add: parse_defs)
  from year_pattern_beats_digit_run [OF h1 h2 h3, of 2026] obtain pre' Y' M' D' where
    "parse_date_from_subject ascii_only 2026
        (ascii ''20240101 2025'' @ [nyeon] @ ascii ''9'' @ [wol] @ ascii ''4'' @ [il])
       = Some (Y' @ zfill 2 M' @ zfill 2 D')"
    by blast
  moreover have "parse_date_from_subject ascii_only 2026
        (ascii ''20240101 2025'' @ [nyeon] @ ascii ''9'' @ [wol] @ ascii ''4'' @ [il]) = Some (ascii ''20250904'')"
    by (simp add: parse_defs)
  ultimately show ?thesis using h1 h2 h3 by simp
qed

text \<open>
  C6. With no year-bearing date in the subject and a first run of eight digits that
  is not a calendar date, pattern 2 gives nothing, later runs of eight digits are not
  looked at, and the result is that of pattern 3: the current year followed by the
  month and day, filled with zeros, of the leftmost month-day substring, and absent
  exactly when the subject has no such substring.
\<close>

theorem invalid_digit_run_falls_through:
  assumes "\<not> has_year_date dv subject"
    and "first_digit_run dv subject E" and "\<not> strptime_ok dv E"
  shows "pattern2_date dv subject = None
     \<and> (\<forall>p M D. month_day_at dv subject p M D \<longrightarrow>
           (\<exists>p' M' D'. month_day_at dv subject p' M' D' \<and> length p' \<le> length p
              \<and> parse_date_from_subject dv current_year subject
                  = Some (str_of_nat current_year @ zfill 2 M' @ zfill 2 D')))
     \<and> ((parse_date_from_subject dv current_year subject = None) = (\<not> has_month_day dv subject))"
proof -
  from assms(2) have "re_search (match2_at dv) subject = Some E"
    by (simp only: first_digit_run_iff)
  with assms(3) have p2: "pattern2_date dv subject = None"
    by (simp add: pattern2_date_def)
  note eq = parse_after_pattern2 [OF assms(1) p2, of current_year]
  have "\<forall>p M D. month_day_at dv subject p M D \<longrightarrow>
           (\<exists>p' M' D'. month_day_at dv subject p' M' D' \<and> length p' \<le> length p
              \<and> parse_date_from_subject dv current_year subject
                  = Some (str_of_nat current_year @ zfill 2 M' @ zfill 2 D'))"
  proof (intro allI impI)
    fix p M D assume "month_day_at dv subject p M D"
    from search3_month_day [OF this] obtain p' M' D' where
      h: "re_search (match3_at dv) subject = Some (M', D')" "month_day_at dv subject p' M' D'"
      "length p' \<le> length p"
      by blast
    from h(1) eq have "parse_date_from_subject dv current_year subject
        = Some (str_of_nat current_year @ zfill 2 M' @ zfill 2 D')"
      by simp
    with h(2,3) show "\<exists>p' M' D'. month_day_at dv subject p' M' D' \<and> length p' \<le> length p
              \<and> parse_date_from_subject dv current_year subject
                  = Some (str_of_nat current_year @ zfill 2 M' @ zfill 2 D')"
      by blast
  qed
  moreover have "(parse_date_from_subject dv current_year subject = None) = (\<not> has_month_day dv subject)"
    unfolding eq no_month_day_iff by (simp split: option.splits)
  ultimately show ?thesis using p2 by blast
qed

theorem invalid_digit_run_falls_through_witness:
  "\<not> has_year_date ascii_only (ascii ''SO 20251301 9'' @ [wol] @ ascii ''5'' @ [il] @ ascii '' 20250101'')
   \<and> first_digit_run ascii_only (ascii ''SO 20251301 9'' @ [wol] @ ascii ''5'' @ [il] @ ascii '' 20250101'')
        (ascii ''20251301'')
   \<and> \<not> strptime_ok ascii_only (ascii ''20251301'')
   \<and> month_day_at ascii_only (ascii ''SO 20251301 9'' @ [wol] @ ascii ''5'' @ [il] @ ascii '' 20250101'')
        (ascii ''SO 20251301 '') (ascii ''9'') (ascii ''5'')
   \<and> parse_date_from_subject ascii_only 2026
        (ascii ''SO 20251301 9'' @ [wol] @ ascii ''5'' @ [il] @ ascii '' 20250101'') = Some (ascii ''20260905'')"
proof -
  let ?s = "ascii ''SO 20251301 9'' @ [wol] @ ascii ''5'' @ [il] @ ascii '' 20250101''"
  have h1: "\<not> has_year_date ascii_only ?s"
    unfolding no_year_date_iff by (simp add: parse_defs)
  have h2: "first_digit_run ascii_only ?s (ascii ''20251301'')"
    unfolding first_digit_run_iff by (simp add: parse_defs)
  have h3: "\<not> strptime_ok ascii_only (ascii ''20251301'')"
    by (simp add: parse_defs)
  have h4: "month_day_at ascii_only ?s (ascii ''SO 20251301 '') (ascii ''9'') (ascii ''5'')"
    by (simp add: month_day_at_def month_day_form_def parse_defs)
  from invalid_digit_run_falls_through [OF h1 h2 h3, of 2026] h4 obtain p' M' D' where
    "parse_date_from_subject ascii_only 2026 ?s = Some (str_of_nat 2026 @ zfill 2 M' @ zfill 2 D')"
    by blast
  moreover have "parse_date_from_subject ascii_only 2026 ?s = Some (ascii ''20260905'')"
    by (simp add: parse_defs str_of_nat.simps)
  ultimately show ?thesis using h1 h2 h3 h4 by simp
qed



section \<open>The selector on candidates of the mailbox search\<close>

lemmas sel_defs = subject_date_def dict_get_def bnd_def latest_key_def py_sorted_reverse_def
  find_latest_message_def msg_def

lemma bnd_Inr [simp]: "bnd (Inr x) f = f x"
  by (simp add: bnd_def)

lemma bnd_Inl [simp]: "bnd (Inl e) f = Inl e"
  by (simp add: bnd_def)

lemma subject_date_wf:
  assumes "wf_message m"
  shows "subject_date dv y m = Inr (parse_date_from_subject dv y (subject_of m))"
proof (cases m)
  case (PDict kvs)
  show ?thesis
  proof (cases "map_of kvs (ascii ''subject'')")
    case None
    with PDict show ?thesis
      by (simp add: subject_date_def dict_get_def)
  next
    case (Some v)
    with PDict assms obtain s where "v = PStr s"
      by (cases v) auto
    with PDict Some show ?thesis
      by (simp add: subject_date_def dict_get_def)
  qed
qed (use assms in auto)

lemma str_of_nat_nonempty: "str_of_nat n \<noteq> []"
  by (subst str_of_nat.simps) simp

lemma parse_nonempty:
  assumes "parse_date_from_subject dv y s = Some d"
  shows "d \<noteq> []"
proof (cases "re_search (match1_at dv) s")
  case (Some x)
  obtain Y M D where x: "x = (Y, M, D)"
    by (cases x) auto
  from re_search_Some [OF Some] obtain q where "match1_at dv q = Some (Y, M, D)"
    unfolding x by auto
  from match1_at_sound [OF this] have "length Y = 4"
    by auto
  then have "Y \<noteq> []"
    by auto
  with assms Some x show ?thesis
    by (auto simp: parse_date_from_subject_def)
next
  case None
  show ?thesis
  proof (cases "pattern2_date dv s")
    case (Some e)
    then have "strptime_ok dv e"
      by (auto simp: pattern2_date_def split: option.splits if_splits)
    then have "length e = 8"
      by (simp add: strptime_ok_def)
    then have "e \<noteq> []"
      by auto
    with assms None Some show ?thesis
      by (simp add: parse_date_from_subject_def)
  next
    case p2: None
    with assms None show ?thesis
      by (auto simp: parse_date_from_subject_def str_of_nat_nonempty split: option.splits)
  qed
qed

lemma latest_key_wf:
  assumes "wf_message m"
  shows "latest_key dv y m = Inr (date_or_zeros dv y m)"
proof (cases "parse_date_from_subject dv y (subject_of m)")
  case None
  then show ?thesis
    by (simp add: latest_key_def subject_date_wf [OF assms] date_or_zeros_def)
next
  case (Some d)
  with parse_nonempty [OF Some] show ?thesis
    by (simp add: latest_key_def subject_date_wf [OF assms] date_or_zeros_def)
qed

lemma traverse_total:
  assumes "\<forall>x\<in>set xs. f x = Inr (g x)"
  shows "traverse f xs = Inr (map g xs)"
  using assms by (induction xs) simp_all

lemma find_message_by_date_wf:
  assumes "\<forall>m\<in>set msgs. wf_message m"
  shows "(\<exists>i<length msgs. find_message_by_date dv y msgs t = Inr (Some (msgs ! i))
            \<and> parse_date_from_subject dv y (subject_of (msgs ! i)) = Some t
            \<and> (\<forall>j<i. parse_date_from_subject dv y (subject_of (msgs ! j)) \<noteq> Some t))
       \<or> (find_message_by_date dv y msgs t = Inr None
            \<and> (\<forall>m\<in>set msgs. parse_date_from_subject dv y (subject_of m) \<noteq> Some t))"
  using assms
proof (induction msgs)
  case Nil
  then show ?case by simp
next
  case (Cons m ms)
  then have sd: "subject_date dv y m = Inr (parse_date_from_subject dv y (subject_of m))"
    by (simp add: subject_date_wf)
  show ?case
  proof (cases "parse_date_from_subject dv y (subject_of m) = Some t")
    case True
    with sd have "find_message_by_date dv y (m # ms) t = Inr (Some ((m # ms) ! 0))"
      by simp
    with True have "0 < length (m # ms) \<and> find_message_by_date dv y (m # ms) t = Inr (Some ((m # ms) ! 0))
        \<and> parse_date_from_subject dv y (subject_of ((m # ms) ! 0)) = Some t
        \<and> (\<forall>j<0. parse_date_from_subject dv y (subject_of ((m # ms) ! j)) \<noteq> Some t)"
      by simp
    then show ?thesis by blast
  next
    case False
    with sd have step: "find_message_by_date dv y (m # ms) t = find_message_by_date dv y ms t"
      by simp
    from Cons have "(\<exists>i<length ms. find_message_by_date dv y ms t = Inr (Some (ms ! i))
            \<and> parse_date_from_subject dv y (subject_of (ms ! i)) = Some t
            \<and> (\<forall>j<i. parse_date_from_subject dv y (subject_of (ms ! j)) \<noteq> Some t))
       \<or> (find_message_by_date dv y ms t = Inr None
            \<and> (\<forall>m\<in>set ms. parse_date_from_subject dv y (subject_of m) \<noteq> Some t))"
      by simp
    then show ?thesis
    proof
      assume "\<exists>i<length ms. find_message_by_date dv y ms t = Inr (Some (ms ! i))
            \<and> parse_date_from_subject dv y (subject_of (ms ! i)) = Some t
            \<and> (\<forall>j<i. parse_date_from_subject dv y (subject_of (ms ! j)) \<noteq> Some t)"
      then obtain i where i: "i < length ms" "find_message_by_date dv y ms t = Inr (Some (ms ! i))"
        "parse_date_from_subject dv y (subject_of (ms ! i)) = Some t"
        "\<forall>j<i. parse_date_from_subject dv y (subject_of (ms ! j)) \<noteq> Some t"
        by blast
      have "\<forall>j<Suc i. parse_date_from_subject dv y (subject_of ((m # ms) ! j)) \<noteq> Some t"
      proof (intro allI impI)
        fix j assume "j < Suc i"
        then show "parse_date_from_subject dv y (subject_of ((m # ms) ! j)) \<noteq> Some t"
          using False i(4) by (cases j) auto
      qed
      with i step have "Suc i < length (m # ms)
          \<and> find_message_by_date dv y (m # ms) t = Inr (Some ((m # ms) ! Suc i))
          \<and> parse_date_from_subject dv y (subject_of ((m # ms) ! Suc i)) = Some t
          \<and> (\<forall>j<Suc i. parse_date_from_subject dv y (subject_of ((m # ms) ! j)) \<noteq> Some t)"
        by simp
      then show ?thesis by blast
    next
      assume "find_message_by_date dv y ms t = Inr None
            \<and> (\<forall>m\<in>set ms. parse_date_from_subject dv y (subject_of m) \<noteq> Some t)"
      with step False show ?thesis
        by simp
    qed
  qed
qed

lemma find_message_by_date_append:
  assumes "\<forall>m\<in>set before. wf_message m"
  shows "find_message_by_date dv y (before @ rest) t =
           (case find_message_by_date dv y before t of
              Inr None \<Rightarrow> find_message_by_date dv y rest t
            | r \<Rightarrow> r)"
  using assms
proof (induction before)
  case Nil
  then show ?case by simp
next
  case (Cons m ms)
  then have "subject_date dv y m = Inr (parse_date_from_subject dv y (subject_of m))"
    by (simp add: subject_date_wf)
  with Cons show ?case
    by simp
qed

lemma last_insort_key:
  "last (insort_key f x xs) = (if \<exists>y\<in>set xs. f x \<le> f y then last xs else x)"
proof (induction xs)
  case Nil
  then show ?case by simp
next
  case (Cons y ys)
  show ?case
  proof (cases "f x \<le> f y")
    case True
    then show ?thesis by simp
  next
    case False
    have ne: "insort_key f x ys \<noteq> []"
      by (cases ys) auto
    from False ne have "last (insort_key f x (y # ys)) = last (insort_key f x ys)"
      by simp
    with Cons False show ?thesis
      by auto
  qed
qed

lemma last_sort_key:
  assumes "ys \<noteq> []"
  shows "\<exists>j<length ys. last (sort_key f ys) = ys ! j
           \<and> (\<forall>k<length ys. f (ys ! k) \<le> f (ys ! j))
           \<and> (\<forall>k<length ys. j < k \<longrightarrow> f (ys ! k) < f (ys ! j))"
  using assms
proof (induction ys)
  case Nil
  then show ?case by simp
next
  case (Cons y ys)
  show ?case
  proof (cases "\<exists>z\<in>set ys. f y \<le> f z")
    case False
    then have l: "last (sort_key f (y # ys)) = y"
      by (simp add: last_insort_key)
    from False have "\<forall>k<length ys. f (ys ! k) < f y"
      by (meson not_le_imp_less nth_mem)
    then have "\<forall>k<length (y # ys). f ((y # ys) ! k) \<le> f y"
      and "\<forall>k<length (y # ys). 0 < k \<longrightarrow> f ((y # ys) ! k) < f y"
      by (auto simp: nth_Cons split: nat.splits intro: less_imp_le)
    with l have "0 < length (y # ys) \<and> last (sort_key f (y # ys)) = (y # ys) ! 0
           \<and> (\<forall>k<length (y # ys). f ((y # ys) ! k) \<le> f ((y # ys) ! 0))
           \<and> (\<forall>k<length (y # ys). 0 < k \<longrightarrow> f ((y # ys) ! k) < f ((y # ys) ! 0))"
      by simp
    then show ?thesis by blast
  next
    case True
    then have ne: "ys \<noteq> []"
      by auto
    from True have l: "last (sort_key f (y # ys)) = last (sort_key f ys)"
      by (simp add: last_insort_key)
    from Cons.IH [OF ne] obtain j where j: "j < length ys" "last (sort_key f ys) = ys ! j"
      "\<forall>k<length ys. f (ys ! k) \<le> f (ys ! j)" "\<forall>k<length ys. j < k \<longrightarrow> f (ys ! k) < f (ys ! j)"
      by blast
    from True j(3) have y: "f y \<le> f (ys ! j)"
      by (metis in_set_conv_nth order_trans)
    have a: "\<forall>k<length (y # ys). f ((y # ys) ! k) \<le> f ((y # ys) ! Suc j)"
      using y j(3) by (auto simp: nth_Cons split: nat.splits)
    have b: "\<forall>k<length (y # ys). Suc j < k \<longrightarrow> f ((y # ys) ! k) < f ((y # ys) ! Suc j)"
      using j(4) by (auto simp: nth_Cons split: nat.splits)
    from l j(1,2) a b have "Suc j < length (y # ys) \<and> last (sort_key f (y # ys)) = (y # ys) ! Suc j
           \<and> (\<forall>k<length (y # ys). f ((y # ys) ! k) \<le> f ((y # ys) ! Suc j))
           \<and> (\<forall>k<length (y # ys). Suc j < k \<longrightarrow> f ((y # ys) ! k) < f ((y # ys) ! Suc j))"
      by simp
    then show ?thesis by blast
  qed
qed

lemma py_sorted_reverse_first:
  assumes key: "\<forall>x\<in>set xs. key x = Inr (g x)" and ne: "xs \<noteq> []"
  shows "\<exists>i<length xs. \<exists>rest. py_sorted_reverse key xs = Inr (xs ! i # rest)
           \<and> (\<forall>j<length xs. g (xs ! j) \<le> g (xs ! i))
           \<and> (\<forall>j<i. g (xs ! j) < g (xs ! i))"
proof -
  define n where "n = length xs"
  define zs where "zs = zip (map g xs) xs"
  define ys where "ys = rev zs"
  define S where "S = sort_key fst ys"
  have len: "length zs = n" "length ys = n" "length S = n"
    by (simp_all add: zs_def ys_def S_def n_def)
  from ne have n0: "0 < n"
    by (simp add: n_def)
  have zs_nth: "\<And>k. k < n \<Longrightarrow> zs ! k = (g (xs ! k), xs ! k)"
    by (simp add: zs_def n_def)
  have ys_nth: "\<And>k. k < n \<Longrightarrow> ys ! k = (g (xs ! (n - Suc k)), xs ! (n - Suc k))"
    using zs_nth len by (simp add: ys_def rev_nth)
  from n0 len have "ys \<noteq> []"
    by auto
  from last_sort_key [OF this, of fst] obtain j where j: "j < n" "last S = ys ! j"
    "\<forall>k<n. fst (ys ! k) \<le> fst (ys ! j)" "\<forall>k<n. j < k \<longrightarrow> fst (ys ! k) < fst (ys ! j)"
    unfolding S_def len by blast
  define i where "i = n - Suc j"
  from j(1) have i: "i < n" and ji: "j = n - Suc i"
    by (simp_all add: i_def)
  from j(2) ys_nth [OF j(1)] have last: "last S = (g (xs ! i), xs ! i)"
    by (simp add: i_def)
  have le: "\<forall>k<n. g (xs ! k) \<le> g (xs ! i)"
  proof (intro allI impI)
    fix k assume k: "k < n"
    then have "n - Suc k < n"
      by simp
    with j(3) have "fst (ys ! (n - Suc k)) \<le> fst (ys ! j)"
      by blast
    with k j(1) show "g (xs ! k) \<le> g (xs ! i)"
      by (simp add: ys_nth i_def)
  qed
  have lt: "\<forall>k<i. g (xs ! k) < g (xs ! i)"
  proof (intro allI impI)
    fix k assume k: "k < i"
    with i have kn: "k < n" "n - Suc k < n" "j < n - Suc k"
      by (simp_all add: ji)
    with j(4) have "fst (ys ! (n - Suc k)) < fst (ys ! j)"
      by blast
    with kn j(1) show "g (xs ! k) < g (xs ! i)"
      by (simp add: ys_nth i_def)
  qed
  from n0 len have "S \<noteq> []"
    by auto
  then obtain B l where Bl: "S = B @ [l]"
    by (meson rev_exhaust)
  with last have l: "l = (g (xs ! i), xs ! i)"
    by simp
  from Bl l have "map snd (rev S) = xs ! i # map snd (rev B)"
    by simp
  moreover from key have "traverse key xs = Inr (map g xs)"
    by (rule traverse_total)
  then have "py_sorted_reverse key xs = Inr (map snd (rev S))"
    by (simp add: py_sorted_reverse_def S_def ys_def zs_def)
  ultimately have "py_sorted_reverse key xs = Inr (xs ! i # map snd (rev B))"
    by simp
  with i le lt show ?thesis
    unfolding n_def by blast
qed

lemma find_latest_message_wf:
  assumes "\<forall>m\<in>set msgs. wf_message m" and "msgs \<noteq> []"
  shows "\<exists>i<length msgs. find_latest_message dv y msgs = Inr (Some (msgs ! i))
           \<and> (\<forall>j<length msgs. date_or_zeros dv y (msgs ! j) \<le> date_or_zeros dv y (msgs ! i))
           \<and> (\<forall>j<i. date_or_zeros dv y (msgs ! j) < date_or_zeros dv y (msgs ! i))"
proof -
  from assms(1) have "\<forall>m\<in>set msgs. latest_key dv y m = Inr (date_or_zeros dv y m)"
    by (simp add: latest_key_wf)
  from py_sorted_reverse_first [OF this assms(2)] obtain i rest where
    h: "i < length msgs" "py_sorted_reverse (latest_key dv y) msgs = Inr (msgs ! i # rest)"
    "\<forall>j<length msgs. date_or_zeros dv y (msgs ! j) \<le> date_or_zeros dv y (msgs ! i)"
    "\<forall>j<i. date_or_zeros dv y (msgs ! j) < date_or_zeros dv y (msgs ! i)"
    by blast
  from h(2) assms(2) have "find_latest_message dv y msgs = Inr (Some (msgs ! i))"
    by (simp add: find_latest_message_def)
  with h(1,3,4) show ?thesis
    by blast
qed

lemma parse_without_clock:
  assumes "\<not> year_from_clock dv s"
  shows "parse_date_from_subject dv y s = parse_date_from_subject dv y' s"
  using assms
  by (auto simp: year_from_clock_def parse_date_from_subject_def split: option.splits)

lemma find_message_by_date_without_clock:
  assumes "\<forall>m\<in>set msgs. wf_message m" and "\<forall>m\<in>set msgs. \<not> year_from_clock dv (subject_of m)"
  shows "find_message_by_date dv y msgs t = find_message_by_date dv y' msgs t"
  using assms
proof (induction msgs)
  case Nil
  then show ?case by simp
next
  case (Cons m ms)
  then have "parse_date_from_subject dv y (subject_of m) = parse_date_from_subject dv y' (subject_of m)"
    by (simp add: parse_without_clock)
  with Cons show ?case
    by (simp add: subject_date_wf)
qed

lemma latest_key_without_clock:
  assumes "wf_message m" and "\<not> year_from_clock dv (subject_of m)"
  shows "latest_key dv y m = latest_key dv y' m"
  using assms parse_without_clock [of dv "subject_of m" y y']
  by (simp add: latest_key_wf date_or_zeros_def)

lemma traverse_cong:
  assumes "\<forall>x\<in>set xs. f x = g x"
  shows "traverse f xs = traverse g xs"
  using assms by (induction xs) simp_all

lemma find_latest_message_without_clock:
  assumes "\<forall>m\<in>set msgs. wf_message m" and "\<forall>m\<in>set msgs. \<not> year_from_clock dv (subject_of m)"
  shows "find_latest_message dv y msgs = find_latest_message dv y' msgs"
proof -
  from assms have "\<forall>m\<in>set msgs. latest_key dv y m = latest_key dv y' m"
    by (simp add: latest_key_without_clock)
  then have "traverse (latest_key dv y) msgs = traverse (latest_key dv y') msgs"
    by (rule traverse_cong)
  then show ?thesis
    by (simp add: find_latest_message_def py_sorted_reverse_def)
qed

lemma find_message_by_date_total:
  assumes "\<forall>m\<in>set msgs. wf_message m"
  shows "\<exists>r. find_message_by_date dv y msgs t = Inr r"
  using find_message_by_date_wf [OF assms, of dv y t] by blast

lemma find_latest_message_total:
  assumes "\<forall>m\<in>set msgs. wf_message m"
  shows "\<exists>r. find_latest_message dv y msgs = Inr r"
proof (cases "msgs = []")
  case True
  then show ?thesis
    by (simp add: find_latest_message_def)
next
  case False
  from find_latest_message_wf [OF assms False, of dv y] show ?thesis
    by blast
qed

text \<open>
  C7. On candidates as the mailbox search builds them, \<open>find_message_by_date\<close> returns
  the first candidate, in the order of the list, whose subject parses to exactly the
  target date; it returns \<open>None\<close> when no subject does, and on the empty list.
\<close>

theorem find_message_by_date_first_match:
  assumes "\<forall>m\<in>set msgs. wf_message m"
  shows "find_message_by_date dv y [] t = Inr None
     \<and> ((\<exists>i<length msgs. find_message_by_date dv y msgs t = Inr (Some (msgs ! i))
            \<and> parse_date_from_subject dv y (subject_of (msgs ! i)) = Some t
            \<and> (\<forall>j<i. parse_date_from_subject dv y (subject_of (msgs ! j)) \<noteq> Some t))
         \<or> (find_message_by_date dv y msgs t = Inr None
            \<and> (\<forall>m\<in>set msgs. parse_date_from_subject dv y (subject_of m) \<noteq> Some t)))"
  using find_message_by_date_wf [OF assms, of dv y t] by simp

theorem find_message_by_date_first_match_witness:
  "list_all wf_message
      [msg ''msg1'' (ascii ''2025'' @ [nyeon] @ ascii ''09'' @ [wol] @ ascii ''04'' @ [il]),
       msg ''msg2'' (ascii ''2025'' @ [nyeon] @ ascii ''09'' @ [wol] @ ascii ''05'' @ [il]),
       msg ''msg3'' (ascii ''20250905'')]
   \<and> find_message_by_date ascii_only 2026
        [msg ''msg1'' (ascii ''2025'' @ [nyeon] @ ascii ''09'' @ [wol] @ ascii ''04'' @ [il]),
         msg ''msg2'' (ascii ''2025'' @ [nyeon] @ ascii ''09'' @ [wol] @ ascii ''05'' @ [il]),
         msg ''msg3'' (ascii ''20250905'')] (ascii ''20250905'')
      = Inr (Some (msg ''msg2'' (ascii ''2025'' @ [nyeon] @ ascii ''09'' @ [wol] @ ascii ''05'' @ [il])))
   \<and> find_message_by_date ascii_only 2026
        [msg ''msg1'' (ascii ''2025'' @ [nyeon] @ ascii ''09'' @ [wol] @ ascii ''04'' @ [il]),
         msg ''msg2'' (ascii ''2025'' @ [nyeon] @ ascii ''09'' @ [wol] @ ascii ''05'' @ [il]),
         msg ''msg3'' (ascii ''20250905'')] (ascii ''20250910'')
      = Inr None"
proof -
  let ?ms = "[msg ''msg1'' (ascii ''2025'' @ [nyeon] @ ascii ''09'' @ [wol] @ ascii ''04'' @ [il]),
               msg ''msg2'' (ascii ''2025'' @ [nyeon] @ ascii ''09'' @ [wol] @ ascii ''05'' @ [il]),
               msg ''msg3'' (ascii ''20250905'')]"
  have h: "\<forall>m\<in>set ?ms. wf_message m"
    by (simp add: msg_def ascii_def)
  from find_message_by_date_first_match [OF h, of ascii_only 2026 "ascii ''20250905''"]
  have "\<exists>r. find_message_by_date ascii_only 2026 ?ms (ascii ''20250905'') = Inr r"
    by blast
  moreover have "find_message_by_date ascii_only 2026 ?ms (ascii ''20250905'')
      = Inr (Some (msg ''msg2'' (ascii ''2025'' @ [nyeon] @ ascii ''09'' @ [wol] @ ascii ''05'' @ [il])))"
    by (simp add: sel_defs parse_defs)
  moreover have "find_message_by_date ascii_only 2026 ?ms (ascii ''20250910'') = Inr None"
    by (simp add: sel_defs parse_defs)
  ultimately show ?thesis
    using h by simp
qed

text \<open>
  C4, as the code has it. On candidates as the mailbox search builds them both
  selectors return a value and raise nothing. Their result is a function of the
  candidates, the target date and the calendar year of the clock at the call; it does
  not change with the clock when no subject takes its year from it, that is when no
  subject reaches pattern 3 and matches it.
\<close>

theorem selector_total_and_clock:
  assumes "\<forall>m\<in>set msgs. wf_message m"
  shows "(\<exists>r. find_message_by_date dv y msgs t = Inr r)
     \<and> (\<exists>r. find_latest_message dv y msgs = Inr r)
     \<and> ((\<forall>m\<in>set msgs. \<not> year_from_clock dv (subject_of m)) \<longrightarrow>
          find_message_by_date dv y msgs t = find_message_by_date dv y' msgs t
          \<and> find_latest_message dv y msgs = find_latest_message dv y' msgs)"
  using find_message_by_date_total [OF assms] find_latest_message_total [OF assms]
    find_message_by_date_without_clock [OF assms] find_latest_message_without_clock [OF assms]
  by blast

theorem selector_total_and_clock_witness:
  "list_all (\<lambda>m. wf_message m \<and> \<not> year_from_clock ascii_only (subject_of m))
      [msg ''a'' (ascii ''2025'' @ [nyeon] @ ascii ''09'' @ [wol] @ ascii ''04'' @ [il]),
       msg ''b'' (ascii ''SO 20250905'')]
   \<and> find_latest_message ascii_only 2024
        [msg ''a'' (ascii ''2025'' @ [nyeon] @ ascii ''09'' @ [wol] @ ascii ''04'' @ [il]),
         msg ''b'' (ascii ''SO 20250905'')]
     = find_latest_message ascii_only 2026
        [msg ''a'' (ascii ''2025'' @ [nyeon] @ ascii ''09'' @ [wol] @ ascii ''04'' @ [il]),
         msg ''b'' (ascii ''SO 20250905'')]
   \<and> find_latest_message ascii_only 2026
        [msg ''a'' (ascii ''2025'' @ [nyeon] @ ascii ''09'' @ [wol] @ ascii ''04'' @ [il]),
         msg ''b'' (ascii ''SO 20250905'')]
     = Inr (Some (msg ''b'' (ascii ''SO 20250905'')))"
proof -
  let ?ms = "[msg ''a'' (ascii ''2025'' @ [nyeon] @ ascii ''09'' @ [wol] @ ascii ''04'' @ [il]),
               msg ''b'' (ascii ''SO 20250905'')]"
  have h1: "\<forall>m\<in>set ?ms. wf_message m"
    by (simp add: msg_def ascii_def)
  have h2: "\<forall>m\<in>set ?ms. \<not> year_from_clock ascii_only (subject_of m)"
    by (simp add: year_from_clock_def msg_def parse_defs)
  from selector_total_and_clock [OF h1, of ascii_only 2024 "[]" 2026] h2
  have "find_latest_message ascii_only 2024 ?ms = find_latest_message ascii_only 2026 ?ms"
    by blast
  moreover have "find_latest_message ascii_only 2026 ?ms = Inr (Some (msg ''b'' (ascii ''SO 20250905'')))"
    by (simp add: sel_defs parse_defs)
  ultimately show ?thesis
    using h1 h2 by simp
qed

text \<open>
  The same two candidates and no target date: in 2024 the candidate with the year in
  its subject is the latest, in 2026 the one whose year comes from the clock.
\<close>

theorem selector_depends_on_clock:
  "find_latest_message ascii_only 2024
     [msg ''a'' (ascii ''2025'' @ [nyeon] @ ascii ''09'' @ [wol] @ ascii ''04'' @ [il]),
      msg ''b'' (ascii ''09'' @ [wol] @ ascii ''05'' @ [il])]
   \<noteq> find_latest_message ascii_only 2026
     [msg ''a'' (ascii ''2025'' @ [nyeon] @ ascii ''09'' @ [wol] @ ascii ''04'' @ [il]),
      msg ''b'' (ascii ''09'' @ [wol] @ ascii ''05'' @ [il])]"
proof -
  let ?ms = "[msg ''a'' (ascii ''2025'' @ [nyeon] @ ascii ''09'' @ [wol] @ ascii ''04'' @ [il]),
      msg ''b'' (ascii ''09'' @ [wol] @ ascii ''05'' @ [il])]"
  have a: "find_latest_message ascii_only 2024 ?ms
      = Inr (Some (msg ''a'' (ascii ''2025'' @ [nyeon] @ ascii ''09'' @ [wol] @ ascii ''04'' @ [il])))"
    by (simp add: sel_defs parse_defs str_of_nat.simps)
  have b: "find_latest_message ascii_only 2026 ?ms
      = Inr (Some (msg ''b'' (ascii ''09'' @ [wol] @ ascii ''05'' @ [il])))"
    by (simp add: sel_defs parse_defs str_of_nat.simps)
  show ?thesis
    unfolding a b by (simp add: msg_def ascii_def)
qed

text \<open>
  C10. A candidate dictionary with no \<open>subject\<close> key is read as one whose subject is
  the empty string: it has no parsed date, sorts as \<open>00000000\<close>, and is passed over
  when a target date is looked for. Among candidates as the mailbox search builds
  them it makes neither selector raise.
\<close>

theorem missing_subject_is_empty_subject:
  assumes "map_of kvs (ascii ''subject'') = None"
    and "\<forall>m\<in>set before. wf_message m" and "\<forall>m\<in>set after. wf_message m"
  shows "subject_date dv y (PDict kvs) = Inr (parse_date_from_subject dv y [])
     \<and> subject_date dv y (PDict kvs) = Inr None
     \<and> latest_key dv y (PDict kvs) = Inr (ascii ''00000000'')
     \<and> find_message_by_date dv y (before @ PDict kvs # after) t
         = find_message_by_date dv y (before @ after) t
     \<and> (\<exists>r. find_message_by_date dv y (before @ PDict kvs # after) t = Inr r)
     \<and> (\<exists>r. find_latest_message dv y (before @ PDict kvs # after) = Inr r)"
proof -
  have empty: "parse_date_from_subject dv y [] = None"
    by (simp add: parse_date_from_subject_def pattern2_date_def match1_at_def match2_at_def
        match3_at_def digits12_then_def digits_then_def orelse_def)
  from assms(1) have sd: "subject_date dv y (PDict kvs) = Inr (parse_date_from_subject dv y [])"
    by (simp add: subject_date_def dict_get_def)
  with empty have key: "latest_key dv y (PDict kvs) = Inr (ascii ''00000000'')"
    by (simp add: latest_key_def)
  from sd empty have step: "find_message_by_date dv y (PDict kvs # after) t = find_message_by_date dv y after t"
    by simp
  have skip: "find_message_by_date dv y (before @ PDict kvs # after) t
         = find_message_by_date dv y (before @ after) t"
    by (simp only: find_message_by_date_append [OF assms(2)] step)
  from assms(1) have "wf_message (PDict kvs)"
    by simp
  with assms(2,3) have wf: "\<forall>m\<in>set (before @ PDict kvs # after). wf_message m"
    by auto
  from sd empty key skip find_message_by_date_total [OF wf, of dv y t]
    find_latest_message_total [OF wf, of dv y]
  show ?thesis
    by simp
qed

theorem missing_subject_is_empty_subject_witness:
  "map_of [(ascii ''id'', PStr (ascii ''x''))] (ascii ''subject'') = None
   \<and> list_all wf_message [msg ''a'' (ascii ''hello'')]
   \<and> list_all wf_message [msg ''b'' (ascii ''20250905'')]
   \<and> find_message_by_date ascii_only 2026
        ([msg ''a'' (ascii ''hello'')] @ PDict [(ascii ''id'', PStr (ascii ''x''))]
           # [msg ''b'' (ascii ''20250905'')]) (ascii ''20250905'')
      = Inr (Some (msg ''b'' (ascii ''20250905'')))
   \<and> find_latest_message ascii_only 2026
        ([] @ PDict [(ascii ''id'', PStr (ascii ''x''))] # [msg ''a'' (ascii ''hello'')])
      = Inr (Some (PDict [(ascii ''id'', PStr (ascii ''x''))]))"
proof -
  have h1: "map_of [(ascii ''id'', PStr (ascii ''x''))] (ascii ''subject'') = None"
    by (simp add: ascii_def)
  have h2: "\<forall>m\<in>set [msg ''a'' (ascii ''hello'')]. wf_message m"
    by (simp add: msg_def ascii_def)
  have h3: "\<forall>m\<in>set [msg ''b'' (ascii ''20250905'')]. wf_message m"
    by (simp add: msg_def ascii_def)
  from missing_subject_is_empty_subject [OF h1 h2 h3, of ascii_only 2026 "ascii ''20250905''"]
  have "find_message_by_date ascii_only 2026
        ([msg ''a'' (ascii ''hello'')] @ PDict [(ascii ''id'', PStr (ascii ''x''))]
           # [msg ''b'' (ascii ''20250905'')]) (ascii ''20250905'')
      = find_message_by_date ascii_only 2026
        ([msg ''a'' (ascii ''hello'')] @ [msg ''b'' (ascii ''20250905'')]) (ascii ''20250905'')"
    by blast
  moreover have "find_message_by_date ascii_only 2026
        ([msg ''a'' (ascii ''hello'')] @ [msg ''b'' (ascii ''20250905'')]) (ascii ''20250905'')
      = Inr (Some (msg ''b'' (ascii ''20250905'')))"
    by (simp add: sel_defs parse_defs)
  moreover have "find_latest_message ascii_only 2026
        ([] @ PDict [(ascii ''id'', PStr (ascii ''x''))] # [msg ''a'' (ascii ''hello'')])
      = Inr (Some (PDict [(ascii ''id'', PStr (ascii ''x''))]))"
    by (simp add: sel_defs parse_defs)
  ultimately show ?thesis
    using h1 h2 h3 by simp
qed

section \<open>The table converter on lists of lists\<close>








lemma rejected_tables:
  assumes "dict_get data (ascii ''tables'') PNone = Inr t"
    and "\<forall>ts. py_or t (PList []) = PList ts \<longrightarrow> ts = []"
  shows "json_tables_to_excel data = ([], Inl (FileProcessingError ValidationError))"
  using assms
  by (cases "py_or t (PList [])") (simp_all add: json_tables_to_excel_def convert_body_def)



text \<open>
  C1. A document whose \<open>tables\<close> property is the empty list is rejected before any
  table is processed and with no sheet written; the \<open>ValidationError\<close> raised for it
  is caught by the handler of the function itself, and the caller receives a
  \<open>FileProcessingError\<close> made from it.
\<close>

theorem empty_tables_raise_FileProcessingError:
  "json_tables_to_excel (PDict [(ascii ''tables'', PList [])])
     = ([], Inl (FileProcessingError ValidationError))"
  by (simp add: json_tables_to_excel_def convert_body_def dict_get_def py_or_def)

section \<open>The latest message\<close>

lemma replicate_le:
  fixes d :: ustring
  assumes "\<forall>c\<in>set d. a \<le> c"
  shows "replicate (length d) a \<le> d"
  using assms
proof (induction d)
  case Nil
  then show ?case by simp
next
  case (Cons c cs)
  then show ?case
    by (cases "a = c") auto
qed

lemma zeros_le:
  fixes d :: ustring
  assumes "length d = 8" and "\<forall>c\<in>set d. 48 \<le> c"
  shows "ascii ''00000000'' \<le> d"
proof -
  have "ascii ''00000000'' = replicate (length d) 48"
    using assms(1) by (simp add: ascii_def numeral_eq_Suc)
  with replicate_le [OF assms(2)] show ?thesis
    by simp
qed

lemma is_digit_from_zero:
  assumes "digits_from_zero dv" and "is_digit dv c"
  shows "48 \<le> c"
  using assms by (auto simp: digits_from_zero_def is_digit_def ascii_digit_def)

lemma zfill2_digits:
  assumes "digits_from_zero dv" and "length M = 1 \<or> length M = 2" and "list_all (is_digit dv) M"
  shows "length (zfill 2 M) = 2 \<and> (\<forall>c\<in>set (zfill 2 M). 48 \<le> c)"
proof -
  from assms(1,3) have ge: "\<forall>c\<in>set M. 48 \<le> c"
    by (auto simp: list_all_iff intro: is_digit_from_zero)
  from assms(2) show ?thesis
  proof
    assume "length M = 2"
    with ge show ?thesis
      by (simp add: zfill_def)
  next
    assume "length M = 1"
    then obtain c where M: "M = [c]"
      by (cases M) auto
    with ge have "48 \<le> c"
      by simp
    with M show ?thesis
      by (simp add: zfill_def)
  qed
qed

lemma str_of_nat_head:
  "1 \<le> n \<Longrightarrow> \<exists>c cs. str_of_nat n = c # cs \<and> 49 \<le> c"
proof (induction n rule: str_of_nat.induct)
  case (1 n)
  show ?case
  proof (cases "n < 10")
    case True
    with "1.prems" have "str_of_nat n = (48 + n) # [] \<and> 49 \<le> 48 + n"
      by (subst str_of_nat.simps) simp
    then show ?thesis by blast
  next
    case False
    then have "1 \<le> n div 10"
      by simp
    with "1.IH" False obtain c cs where "str_of_nat (n div 10) = c # cs" "49 \<le> c"
      by blast
    with False have "str_of_nat n = c # (cs @ [48 + n mod 10]) \<and> 49 \<le> c"
      by (subst str_of_nat.simps) simp
    then show ?thesis by blast
  qed
qed

lemma parse_ge_zeros:
  assumes dz: "digits_from_zero dv" and y: "1 \<le> y"
    and p: "parse_date_from_subject dv y s = Some d"
  shows "ascii ''00000000'' \<le> d"
proof (cases "re_search (match1_at dv) s")
  case (Some x)
  obtain Y M D where x: "x = (Y, M, D)"
    by (cases x) auto
  from re_search_Some [OF Some] obtain q where "match1_at dv q = Some (Y, M, D)"
    unfolding x by auto
  from match1_at_sound [OF this] have f: "length Y = 4" "list_all (is_digit dv) Y"
    "month_day_form dv M D"
    by auto
  from f(3) have fM: "length M = 1 \<or> length M = 2" "list_all (is_digit dv) M"
    and fD: "length D = 1 \<or> length D = 2" "list_all (is_digit dv) D"
    by (simp_all add: month_day_form_def)
  note M = zfill2_digits [OF dz fM] and D = zfill2_digits [OF dz fD]
  from f(2) dz have Y: "\<forall>c\<in>set Y. 48 \<le> c"
    by (auto simp: list_all_iff intro: is_digit_from_zero)
  from p Some x have d: "d = Y @ zfill 2 M @ zfill 2 D"
    by (simp add: parse_date_from_subject_def)
  from f(1) M D Y have "length d = 8" "\<forall>c\<in>set d. 48 \<le> c"
    unfolding d by auto
  then show ?thesis
    by (rule zeros_le)
next
  case None
  show ?thesis
  proof (cases "pattern2_date dv s")
    case (Some e)
    then have "strptime_ok dv e"
      by (auto simp: pattern2_date_def split: option.splits if_splits)
    then have "length e = 8" "list_all (is_digit dv) e"
      by (simp_all add: strptime_ok_def)
    with dz have "length e = 8" "\<forall>c\<in>set e. 48 \<le> c"
      by (auto simp: list_all_iff intro: is_digit_from_zero)
    then have "ascii ''00000000'' \<le> e"
      by (rule zeros_le)
    with p None Some show ?thesis
      by (simp add: parse_date_from_subject_def)
  next
    case p2: None
    with p None obtain M D where d: "d = str_of_nat y @ zfill 2 M @ zfill 2 D"
      by (auto simp: parse_date_from_subject_def split: option.splits)
    from str_of_nat_head [OF y] obtain c cs where "str_of_nat y = c # cs" "49 \<le> c"
      by blast
    with d have "d = c # (cs @ zfill 2 M @ zfill 2 D)" "48 < c"
      by simp_all
    then show ?thesis
      by (simp add: ascii_def)
  qed
qed

lemma date_or_zeros_ge:
  assumes "digits_from_zero dv" and "1 \<le> y"
  shows "ascii ''00000000'' \<le> date_or_zeros dv y m"
proof (cases "parse_date_from_subject dv y (subject_of m)")
  case None
  then show ?thesis
    by (simp add: date_or_zeros_def)
next
  case (Some d)
  with parse_ge_zeros [OF assms Some] show ?thesis
    by (simp add: date_or_zeros_def)
qed

text \<open>
  C3. On candidates as the mailbox search builds them, \<open>find_latest_message\<close> returns
  the candidate whose date, \<open>00000000\<close> standing for an absent one, is greatest in the
  order of strings, and the earliest in the list among those with that date: every
  candidate before it has a strictly smaller date. On the empty list it returns
  \<open>None\<close>. No date is smaller than \<open>00000000\<close>, so a candidate without a date sorts
  last, when the digits of the table lie above \<open>0\<close> and the year is 1 or more.
\<close>

theorem find_latest_message_first_greatest:
  assumes "\<forall>m\<in>set msgs. wf_message m"
  shows "find_latest_message dv y [] = Inr None
     \<and> (msgs \<noteq> [] \<longrightarrow>
          (\<exists>i<length msgs. find_latest_message dv y msgs = Inr (Some (msgs ! i))
             \<and> (\<forall>j<length msgs. date_or_zeros dv y (msgs ! j) \<le> date_or_zeros dv y (msgs ! i))
             \<and> (\<forall>j<i. date_or_zeros dv y (msgs ! j) < date_or_zeros dv y (msgs ! i))))
     \<and> (digits_from_zero dv \<and> 1 \<le> y \<longrightarrow>
          (\<forall>m. ascii ''00000000'' \<le> date_or_zeros dv y m))"
proof -
  have "find_latest_message dv y [] = Inr None"
    by (simp add: find_latest_message_def)
  moreover have "msgs \<noteq> [] \<longrightarrow>
          (\<exists>i<length msgs. find_latest_message dv y msgs = Inr (Some (msgs ! i))
             \<and> (\<forall>j<length msgs. date_or_zeros dv y (msgs ! j) \<le> date_or_zeros dv y (msgs ! i))
             \<and> (\<forall>j<i. date_or_zeros dv y (msgs ! j) < date_or_zeros dv y (msgs ! i)))"
    using find_latest_message_wf [OF assms, of dv y] by blast
  moreover have "digits_from_zero dv \<and> 1 \<le> y \<longrightarrow>
          (\<forall>m. ascii ''00000000'' \<le> date_or_zeros dv y m)"
    using date_or_zeros_ge [of dv y] by blast
  ultimately show ?thesis
    by blast
qed

theorem find_latest_message_first_greatest_witness:
  "digits_from_zero ascii_only
   \<and> list_all wf_message
      [msg ''a'' (ascii ''hello''),
       msg ''b'' (ascii ''2025'' @ [nyeon] @ ascii ''9'' @ [wol] @ ascii ''6'' @ [il]),
       msg ''c'' (ascii ''2025'' @ [nyeon] @ ascii ''09'' @ [wol] @ ascii ''06'' @ [il]),
       msg ''d'' (ascii ''2025'' @ [nyeon] @ ascii ''09'' @ [wol] @ ascii ''05'' @ [il])]
   \<and> find_latest_message ascii_only 2026
        [msg ''a'' (ascii ''hello''),
         msg ''b'' (ascii ''2025'' @ [nyeon] @ ascii ''9'' @ [wol] @ ascii ''6'' @ [il]),
         msg ''c'' (ascii ''2025'' @ [nyeon] @ ascii ''09'' @ [wol] @ ascii ''06'' @ [il]),
         msg ''d'' (ascii ''2025'' @ [nyeon] @ ascii ''09'' @ [wol] @ ascii ''05'' @ [il])]
      = Inr (Some (msg ''b'' (ascii ''2025'' @ [nyeon] @ ascii ''9'' @ [wol] @ ascii ''6'' @ [il])))"
proof -
  let ?ms = "[msg ''a'' (ascii ''hello''),
               msg ''b'' (ascii ''2025'' @ [nyeon] @ ascii ''9'' @ [wol] @ ascii ''6'' @ [il]),
               msg ''c'' (ascii ''2025'' @ [nyeon] @ ascii ''09'' @ [wol] @ ascii ''06'' @ [il]),
               msg ''d'' (ascii ''2025'' @ [nyeon] @ ascii ''09'' @ [wol] @ ascii ''05'' @ [il])]"
  have h: "\<forall>m\<in>set ?ms. wf_message m"
    by (simp add: msg_def ascii_def)
  from find_latest_message_first_greatest [OF h, of ascii_only 2026]
  obtain i where "find_latest_message ascii_only 2026 ?ms = Inr (Some (?ms ! i))"
    by blast
  moreover have "find_latest_message ascii_only 2026 ?ms
      = Inr (Some (msg ''b'' (ascii ''2025'' @ [nyeon] @ ascii ''9'' @ [wol] @ ascii ''6'' @ [il])))"
    by (simp add: sel_defs parse_defs)
  moreover have "digits_from_zero ascii_only"
    by (simp add: digits_from_zero_def ascii_only_def)
  ultimately show ?thesis
    using h by simp
qed

end
